theory Spec2Isabelle
  imports Main "HOL-Library.Word"
begin

unbundle bit_operations_syntax

section \<open>The DuckyScript compiler of \<^verbatim>\<open>sysfract.py\<close>\<close>

text \<open>
  The compiler is the pair of functions \<^verbatim>\<open>parse_key\<close> and \<^verbatim>\<open>compile_duckyscript\<close>
  together with the two tables \<^verbatim>\<open>KEYMAP\<close> and \<^verbatim>\<open>MODIFIERS\<close>. The embedding follows the
  Python text statement by statement.

  Scope of the embedding. A script is an ASCII string: the built-in string methods below
  are the ones of Python 3 on code points below 128, and a character from 128 on is
  treated as a symbol that is neither white space, nor a letter, nor a digit. Python
  integers are \<^typ>\<open>int\<close>. A \<^verbatim>\<open>bytearray\<close> is a list of 8-bit words, and the range check
  of an item assignment is written out. The length of a bytes object is bounded by
  \<^verbatim>\<open>sys.maxsize\<close>, taken from a 64-bit build, and the memory of the machine is a
  parameter \<open>mem\<close> of the compiler: the repetition \<^verbatim>\<open>b * n\<close> of a bytes object raises
  \<^verbatim>\<open>OverflowError\<close> when the result would be too long and \<^verbatim>\<open>MemoryError\<close> when the
  machine cannot hold it. An object of at most 24 bytes, the size of one press/release
  group, can always be built, and so can the stream itself. The limit on the number of
  digits that \<^verbatim>\<open>int\<close> accepts is not part of the model. What \<^verbatim>\<open>print\<close> writes is kept
  as a list of diagnostics next to the returned bytes.
\<close>

subsection \<open>Exceptions\<close>

datatype exn = ValueError string | IndexError | KeyError string | OverflowError | MemoryError

type_synonym byte = "8 word"

subsection \<open>Built-in string methods\<close>

definition isspace :: "char \<Rightarrow> bool" where
  \<comment> \<open>\<^verbatim>\<open>str.isspace\<close> of one character: TAB, LF, VT, FF, CR, FS, GS, RS, US and the blank\<close>
  "isspace c = (let n = (of_char c :: nat) in (9 \<le> n \<and> n \<le> 13) \<or> (28 \<le> n \<and> n \<le> 31) \<or> n = 32)"

definition islinebreak :: "char \<Rightarrow> bool" where
  \<comment> \<open>the line boundaries of \<^verbatim>\<open>str.splitlines\<close>: LF, VT, FF, CR, FS, GS, RS\<close>
  "islinebreak c = (let n = (of_char c :: nat) in (10 \<le> n \<and> n \<le> 13) \<or> (28 \<le> n \<and> n \<le> 30))"

definition isupper :: "char \<Rightarrow> bool" where
  "isupper c = (let n = (of_char c :: nat) in 65 \<le> n \<and> n \<le> 90)"

definition islower :: "char \<Rightarrow> bool" where
  "islower c = (let n = (of_char c :: nat) in 97 \<le> n \<and> n \<le> 122)"

definition isdigit :: "char \<Rightarrow> bool" where
  "isdigit c = (let n = (of_char c :: nat) in 48 \<le> n \<and> n \<le> 57)"

definition lower_char :: "char \<Rightarrow> char" where
  "lower_char c = (if isupper c then char_of ((of_char c :: nat) + 32) else c)"

definition upper_char :: "char \<Rightarrow> char" where
  "upper_char c = (if islower c then char_of ((of_char c :: nat) - 32) else c)"

definition lower :: "string \<Rightarrow> string" where
  "lower s = map lower_char s"

definition upper :: "string \<Rightarrow> string" where
  "upper s = map upper_char s"

definition strip :: "string \<Rightarrow> string" where
  "strip s = rev (dropWhile isspace (rev (dropWhile isspace s)))"

definition startswith :: "string \<Rightarrow> string list \<Rightarrow> bool" where
  \<comment> \<open>\<^verbatim>\<open>str.startswith\<close> with a tuple of prefixes\<close>
  "startswith s ps = list_ex (\<lambda>p. take (length p) s = p) ps"

fun splitlines_from :: "string \<Rightarrow> string \<Rightarrow> string list" where
  "splitlines_from cur [] = (if cur = [] then [] else [cur])"
| "splitlines_from cur [c] = (if islinebreak c then [cur] else [cur @ [c]])"
| "splitlines_from cur (c # d # cs) =
     (if c = CHR 0x0D \<and> d = CHR 0x0A then cur # splitlines_from [] cs
      else if islinebreak c then cur # splitlines_from [] (d # cs)
      else splitlines_from (cur @ [c]) (d # cs))"

definition splitlines :: "string \<Rightarrow> string list" where
  \<comment> \<open>\<^verbatim>\<open>str.splitlines()\<close>: CR LF is one boundary, and no empty last line is returned\<close>
  "splitlines s = splitlines_from [] s"

definition split_maxsplit1 :: "string \<Rightarrow> string list" where
  \<comment> \<open>\<^verbatim>\<open>str.split(maxsplit=1)\<close>: the first word, and the rest from its first
      character that is not white space, when there is one\<close>
  "split_maxsplit1 s =
     (let s1 = dropWhile isspace s in
      if s1 = [] then []
      else let w = takeWhile (\<lambda>c. \<not> isspace c) s1;
               r = dropWhile isspace (dropWhile (\<lambda>c. \<not> isspace c) s1)
           in if r = [] then [w] else [w, r])"

fun split_from :: "char \<Rightarrow> string \<Rightarrow> string \<Rightarrow> string list" where
  "split_from sep cur [] = [cur]"
| "split_from sep cur (c # cs) =
     (if c = sep then cur # split_from sep [] cs else split_from sep (cur @ [c]) cs)"

definition split :: "string \<Rightarrow> char \<Rightarrow> string list" where
  \<comment> \<open>\<^verbatim>\<open>str.split(sep)\<close> with a separator of one character\<close>
  "split s sep = split_from sep [] s"

subsection \<open>The built-in \<^verbatim>\<open>int\<close> on a string\<close>

definition c_isspace :: "char \<Rightarrow> bool" where
  \<comment> \<open>the white space that \<^verbatim>\<open>int\<close> skips at both ends of an ASCII string\<close>
  "c_isspace c = (let n = (of_char c :: nat) in (9 \<le> n \<and> n \<le> 13) \<or> n = 32)"

definition digit_val :: "char \<Rightarrow> int" where
  "digit_val c = int (of_char c) - 48"

fun int_digits :: "int \<Rightarrow> char \<Rightarrow> string \<Rightarrow> int option" where
  "int_digits acc prev [] = (if prev = CHR ''_'' then None else Some acc)"
| "int_digits acc prev (c # cs) =
     (if isdigit c then int_digits (10 * acc + digit_val c) c cs
      else if c = CHR ''_'' \<and> prev \<noteq> CHR ''_'' then int_digits acc c cs
      else None)"

definition int_unsigned :: "string \<Rightarrow> int option" where
  \<comment> \<open>decimal digits, with single underscores between digits only\<close>
  "int_unsigned s =
     (case s of [] \<Rightarrow> None
      | c # cs \<Rightarrow> if isdigit c then int_digits (digit_val c) c cs else None)"

definition py_int :: "string \<Rightarrow> exn + int" where
  \<comment> \<open>\<^verbatim>\<open>int(s)\<close>: white space, an optional sign, the digits, white space\<close>
  "py_int s =
     (let t = rev (dropWhile c_isspace (rev (dropWhile c_isspace s)));
          r = (case t of
                 [] \<Rightarrow> None
               | c # cs \<Rightarrow>
                   if c = CHR ''-'' then map_option uminus (int_unsigned cs)
                   else if c = CHR ''+'' then int_unsigned cs
                   else int_unsigned t)
      in case r of None \<Rightarrow> Inl (ValueError s) | Some n \<Rightarrow> Inr n)"

subsection \<open>Dictionaries and byte arrays\<close>

definition getitem :: "(string \<times> int) list \<Rightarrow> string \<Rightarrow> exn + int" where
  \<comment> \<open>\<^verbatim>\<open>d[k]\<close>\<close>
  "getitem d k = (case map_of d k of None \<Rightarrow> Inl (KeyError k) | Some v \<Rightarrow> Inr v)"

definition bytearray :: "nat \<Rightarrow> byte list" where
  "bytearray n = replicate n 0"

definition setitem :: "byte list \<Rightarrow> nat \<Rightarrow> int \<Rightarrow> exn + byte list" where
  \<comment> \<open>\<^verbatim>\<open>packet[i] = v\<close>: the value must be in \<^verbatim>\<open>range(0, 256)\<close>, the index in range\<close>
  "setitem p i v =
     (if v < 0 \<or> 255 < v then Inl (ValueError ''byte must be in range(0, 256)'')
      else if length p \<le> i then Inl IndexError
      else Inr (p[i := word_of_int v]))"

definition maxsize :: int where
  \<comment> \<open>\<^verbatim>\<open>sys.maxsize\<close>: the largest index, and the largest length of a bytes object\<close>
  "maxsize = 2 ^ 63 - 1"

definition fits :: "nat \<Rightarrow> nat \<Rightarrow> bool" where
  \<comment> \<open>whether the machine can hold a new bytes object of \<open>n\<close> bytes: 24 bytes always,
      and \<open>mem\<close> bytes more\<close>
  "fits mem n = (n \<le> 24 + mem)"

definition bytes_mul :: "nat \<Rightarrow> byte list \<Rightarrow> int \<Rightarrow> exn + byte list" where
  \<comment> \<open>\<^verbatim>\<open>b * n\<close> with a count computed at run time: the count must fit an index, the
      length of the result must not exceed \<^verbatim>\<open>sys.maxsize\<close>, and the machine must hold
      the result; the result is empty when \<^verbatim>\<open>n\<close> is not positive\<close>
  "bytes_mul mem b n =
     (if n < - maxsize - 1 \<or> maxsize < n then Inl OverflowError
      else if 0 < n \<and> maxsize < int (length b) * n then Inl OverflowError
      else if \<not> fits mem (length b * nat n) then Inl MemoryError
      else Inr (concat (replicate (nat n) b)))"

definition bind :: "exn + 'a \<Rightarrow> ('a \<Rightarrow> exn + 'b) \<Rightarrow> exn + 'b" where
  \<comment> \<open>sequencing of two statements, the first of which may raise\<close>
  "bind m f = (case m of Inl e \<Rightarrow> Inl e | Inr x \<Rightarrow> f x)"

subsection \<open>The symbol tables\<close>

definition KEYMAP :: "(string \<times> int) list" where
  "KEYMAP =
    [(''a'', 0x04), (''b'', 0x05), (''c'', 0x06), (''d'', 0x07), (''e'', 0x08), (''f'', 0x09),
     (''g'', 0x0A), (''h'', 0x0B),
     (''i'', 0x0C), (''j'', 0x0D), (''k'', 0x0E), (''l'', 0x0F), (''m'', 0x10), (''n'', 0x11),
     (''o'', 0x12), (''p'', 0x13),
     (''q'', 0x14), (''r'', 0x15), (''s'', 0x16), (''t'', 0x17), (''u'', 0x18), (''v'', 0x19),
     (''w'', 0x1A), (''x'', 0x1B),
     (''y'', 0x1C), (''z'', 0x1D),
     (''1'', 0x1E), (''2'', 0x1F), (''3'', 0x20), (''4'', 0x21), (''5'', 0x22), (''6'', 0x23),
     (''7'', 0x24), (''8'', 0x25),
     (''9'', 0x26), (''0'', 0x27),
     (''enter'', 0x28), (''esc'', 0x29), (''backspace'', 0x2A), (''tab'', 0x2B),
     (''space'', 0x2C),
     (''-'', 0x2D), (''equals'', 0x2E), (''['', 0x2F), ('']'', 0x30), ([CHR 0x5C], 0x31),
     ('';'', 0x33), ([CHR 0x27], 0x34), ([CHR 0x60], 0x35), ('','', 0x36), (''.'', 0x37),
     (''/'', 0x38),
     (''f1'', 0x3A), (''f2'', 0x3B), (''f3'', 0x3C), (''f4'', 0x3D), (''f5'', 0x3E),
     (''f6'', 0x3F),
     (''f7'', 0x40), (''f8'', 0x41), (''f9'', 0x42), (''f10'', 0x43), (''f11'', 0x44),
     (''f12'', 0x45),
     (''right'', 0x4F), (''left'', 0x50), (''down'', 0x51), (''up'', 0x52)]"

definition MODIFIERS :: "(string \<times> int) list" where
  "MODIFIERS =
    [(''ctrl'', 0x01), (''shift'', 0x02), (''alt'', 0x04), (''gui'', 0x08), (''win'', 0x08),
     (''windows'', 0x08)]"

definition SHIFTED :: "string" where
  \<comment> \<open>the raw string literal of the \<^verbatim>\<open>STRING\<close> branch\<close>
  "SHIFTED = ''!@#$%^&*()_+{}|:'' @ [CHR 0x22] @ ''<>?~''"

subsection \<open>\<^verbatim>\<open>parse_key\<close>\<close>

fun parse_key_loop :: "string list \<Rightarrow> int \<Rightarrow> int list \<Rightarrow> int \<times> int list" where
  "parse_key_loop [] md keys = (md, keys)"
| "parse_key_loop (p # ps) md keys =
     (case map_of MODIFIERS p of
        Some m \<Rightarrow> parse_key_loop ps (md OR m) keys
      | None \<Rightarrow>
          (case map_of KEYMAP p of
             Some k \<Rightarrow> parse_key_loop ps md (keys @ [k])
           | None \<Rightarrow> parse_key_loop ps md keys))"

definition parse_key :: "string \<Rightarrow> int \<times> int list" where
  "parse_key key_str =
     (let parts = map strip (split (lower key_str) (CHR ''-''))
      in parse_key_loop parts 0 [])"

subsection \<open>\<^verbatim>\<open>compile_duckyscript\<close>\<close>

text \<open>
  The products of two literals, \<^verbatim>\<open>b"\x00" * 16\<close> and \<^verbatim>\<open>b"\x00" * 8\<close>, are the constants of
  16 and of 8 zero bytes.

  One pass of the loop over the characters of a \<^verbatim>\<open>STRING\<close> argument. Every statement
  that may raise comes before the two appends to \<^verbatim>\<open>binary\<close>, so the pass either raises
  and leaves \<^verbatim>\<open>binary\<close> as it is, or returns the bytes that it appends.
\<close>

definition string_char :: "char \<Rightarrow> exn + byte list" where
  "string_char char =
     (let c = lower [char];
          key = (case map_of KEYMAP c of Some k \<Rightarrow> k | None \<Rightarrow> 0)
      in
      bind (if isupper char \<or> char \<in> set SHIFTED
            then bind (getitem MODIFIERS ''shift'') (\<lambda>s. Inr (0 OR s))
            else Inr 0) (\<lambda>md.
      bind (if char = CHR '' '' then getitem KEYMAP ''space'' else Inr key) (\<lambda>key.
      bind (if char = CHR 0x0A
            then bind (getitem KEYMAP ''enter'') (\<lambda>k. Inr (k, 0))
            else Inr (key, md)) (\<lambda>(key, md).
      if key \<noteq> 0
      then bind (setitem (bytearray 8) 0 md) (\<lambda>packet.
           bind (setitem packet 2 key) (\<lambda>packet.
           Inr (packet @ replicate 16 0)))
      else Inr []))))"

fun string_loop :: "string \<Rightarrow> byte list \<Rightarrow> byte list \<times> exn option" where
  "string_loop [] binary = (binary, None)"
| "string_loop (char # rest) binary =
     (case string_char char of
        Inl e \<Rightarrow> (binary, Some e)
      | Inr bs \<Rightarrow> string_loop rest (binary @ bs))"

fun set_keys :: "byte list \<Rightarrow> (nat \<times> int) list \<Rightarrow> exn + byte list" where
  \<comment> \<open>\<^verbatim>\<open>for i, k in enumerate(keys[:6]): packet[2 + i] = k\<close>\<close>
  "set_keys packet [] = Inr packet"
| "set_keys packet ((i, k) # iks) = bind (setitem packet (2 + i) k) (\<lambda>packet. set_keys packet iks)"

definition named_key :: "string \<Rightarrow> exn + byte list" where
  \<comment> \<open>the branch of \<^verbatim>\<open>ENTER\<close>, \<^verbatim>\<open>TAB\<close>, \<^verbatim>\<open>ESC\<close> and \<^verbatim>\<open>BACKSPACE\<close>\<close>
  "named_key cmd =
     (let key = (case map_of KEYMAP (lower cmd) of Some k \<Rightarrow> k | None \<Rightarrow> 0)
      in if key \<noteq> 0
         then bind (setitem (bytearray 8) 2 key) (\<lambda>packet. Inr (packet @ replicate 16 0))
         else Inr [])"

definition key_combo :: "string \<Rightarrow> string \<Rightarrow> exn + byte list" where
  \<comment> \<open>the last branch: the command word and the argument are both key combinations\<close>
  "key_combo cmd arg =
     (let (md, keys) = parse_key cmd;
          (md, keys) = (if arg \<noteq> [] then (let (md2, keys2) = parse_key arg
                                          in (md OR md2, keys @ keys2))
                        else (md, keys))
      in if keys \<noteq> []
         then bind (setitem (bytearray 8) 0 md) (\<lambda>packet.
              bind (set_keys packet (enumerate 0 (take 6 keys))) (\<lambda>packet.
              Inr (packet @ replicate 16 0)))
         else Inr [])"

definition delay :: "nat \<Rightarrow> string \<Rightarrow> exn + byte list" where
  "delay mem arg =
     bind (py_int arg) (\<lambda>ms.
       let reports = max 1 ((ms + 10) div 12)
       in bytes_mul mem (replicate 8 0) reports)"

definition try_body :: "nat \<Rightarrow> string \<Rightarrow> string \<Rightarrow> byte list \<Rightarrow> byte list \<times> exn option" where
  \<comment> \<open>the body of the \<^verbatim>\<open>try\<close> statement: \<^verbatim>\<open>binary\<close> afterwards, and the exception raised\<close>
  "try_body mem cmd arg binary =
     (if cmd = ''DELAY'' then
        (case delay mem arg of Inl e \<Rightarrow> (binary, Some e) | Inr bs \<Rightarrow> (binary @ bs, None))
      else if cmd = ''STRING'' then string_loop arg binary
      else if cmd \<in> set [''ENTER'', ''TAB'', ''ESC'', ''BACKSPACE''] then
        (case named_key cmd of Inl e \<Rightarrow> (binary, Some e) | Inr bs \<Rightarrow> (binary @ bs, None))
      else
        (case key_combo cmd arg of Inl e \<Rightarrow> (binary, Some e) | Inr bs \<Rightarrow> (binary @ bs, None)))"

datatype diagnostic = Diagnostic (line_nr: nat) (line_text: string) (failure: exn)

text \<open>
  The state of the loop over the lines: the bytes so far and what has been printed. The
  body of the loop is \<open>compile_line\<close>, applied to the line number after its increment.
  The first argument of the compiler is the memory of the machine, which only the
  repetition in the \<^verbatim>\<open>DELAY\<close> branch consults.
  \<^verbatim>\<open>parts[0]\<close> stands outside the \<^verbatim>\<open>try\<close> statement: an exception there would end the
  compilation.
\<close>

type_synonym compiled = "byte list \<times> diagnostic list"

definition compile_line :: "nat \<Rightarrow> nat \<Rightarrow> string \<Rightarrow> compiled \<Rightarrow> exn + compiled" where
  "compile_line mem nr line0 st =
     (let (binary, printed) = st;
          line = strip line0
      in if line = [] \<or> startswith line [''REM'', ''//'', ''#''] then Inr st
         else
           let parts = split_maxsplit1 line
           in (case parts of
                 [] \<Rightarrow> Inl IndexError
               | p0 # _ \<Rightarrow>
                   let cmd = upper p0;
                       arg = (if length parts > 1 then strip (parts ! 1) else [])
                   in (case try_body mem cmd arg binary of
                         (binary', None) \<Rightarrow> Inr (binary', printed)
                       | (binary', Some e) \<Rightarrow>
                           Inr (binary', printed @ [Diagnostic nr line e]))))"

fun compile_lines :: "nat \<Rightarrow> string list \<Rightarrow> nat \<Rightarrow> compiled \<Rightarrow> exn + compiled" where
  "compile_lines mem [] nr st = Inr st"
| "compile_lines mem (line # rest) nr st =
     bind (compile_line mem (nr + 1) line st) (\<lambda>st. compile_lines mem rest (nr + 1) st)"

definition compile_duckyscript :: "nat \<Rightarrow> string \<Rightarrow> exn + compiled" where
  "compile_duckyscript mem text = compile_lines mem (splitlines text) 0 ([], [])"

subsection \<open>What one press is, in the words of the specification\<close>

text \<open>
  The key code and the modifier of one character of a \<^verbatim>\<open>STRING\<close> argument, the key-down
  report of a modifier mask and a list of key codes (at most six are kept, the unused slots
  are zero), and the press/release group: the key-down report and two all-zero reports.
\<close>

definition char_key :: "char \<Rightarrow> int" where
  "char_key ch =
     (if ch = CHR 0x0A then 0x28
      else if ch = CHR '' '' then 0x2C
      else (case map_of KEYMAP (lower [ch]) of Some k \<Rightarrow> k | None \<Rightarrow> 0))"

definition char_mod :: "char \<Rightarrow> int" where
  "char_mod ch = (if ch \<noteq> CHR 0x0A \<and> (isupper ch \<or> ch \<in> set SHIFTED) then 2 else 0)"

definition key_down :: "int \<Rightarrow> int list \<Rightarrow> byte list" where
  "key_down md keys =
     [word_of_int md, 0] @ map word_of_int (take 6 keys) @ replicate (6 - length keys) 0"

definition press_release :: "int \<Rightarrow> int list \<Rightarrow> byte list" where
  "press_release md keys = key_down md keys @ replicate 16 0"

definition char_bytes :: "char \<Rightarrow> byte list" where
  "char_bytes ch = (if char_key ch = 0 then [] else press_release (char_mod ch) [char_key ch])"

subsection \<open>The key-combo resolver, in the words of the specification\<close>

text \<open>
  The tokens of a combination: split at the hyphens, trimmed, in lower case. A token that
  names a modifier gives its bit, a token that names a key and no modifier gives its code.
\<close>

definition tokens :: "string \<Rightarrow> string list" where
  "tokens key_str = map strip (split (lower key_str) (CHR ''-''))"

definition token_keys :: "string list \<Rightarrow> int list" where
  "token_keys ps =
     List.map_filter (\<lambda>p. if map_of MODIFIERS p = None then map_of KEYMAP p else None) ps"

definition combo_mod :: "string \<Rightarrow> string \<Rightarrow> int" where
  "combo_mod cmd arg = fst (parse_key cmd) OR fst (parse_key arg)"

definition combo_keys :: "string \<Rightarrow> string \<Rightarrow> int list" where
  "combo_keys cmd arg = snd (parse_key cmd) @ snd (parse_key arg)"

definition named_bytes :: "string \<Rightarrow> byte list" where
  "named_bytes cmd =
     (case map_of KEYMAP (lower cmd) of Some k \<Rightarrow> press_release 0 [k] | None \<Rightarrow> [])"

definition delay_bytes :: "int \<Rightarrow> byte list" where
  "delay_bytes ms = replicate (8 * nat (max 1 ((ms + 10) div 12))) 0"

function reports :: "byte list \<Rightarrow> byte list list" where
  "reports bs = (if bs = [] then [] else take 8 bs # reports (drop 8 bs))"
  by pat_completeness auto
termination
  by (relation "measure length") auto

declare reports.simps [simp del]

definition report_ok :: "byte list \<Rightarrow> bool" where
  "report_ok r = (length r = 8 \<and> r ! 1 = 0 \<and> (r ! 0) AND 0xF0 = 0)"

definition well_formed :: "byte list \<Rightarrow> bool" where
  "well_formed bs = (8 dvd length bs \<and> list_all report_ok (reports bs))"

definition delay_result :: "nat \<Rightarrow> int \<Rightarrow> exn + byte list" where
  \<comment> \<open>the frames of a delay, when the block of frames can be built\<close>
  "delay_result mem ms =
     (if maxsize < 8 * max 1 ((ms + 10) div 12) then Inl OverflowError
      else if \<not> fits mem (nat (8 * max 1 ((ms + 10) div 12))) then Inl MemoryError
      else Inr (delay_bytes ms))"

definition command_result :: "nat \<Rightarrow> string \<Rightarrow> string \<Rightarrow> exn + byte list" where
  "command_result mem cmd arg =
     (if cmd = ''DELAY'' then
        (case py_int arg of Inl e \<Rightarrow> Inl e | Inr ms \<Rightarrow> delay_result mem ms)
      else if cmd = ''STRING'' then Inr (concat (map char_bytes arg))
      else if cmd \<in> set [''ENTER'', ''TAB'', ''ESC'', ''BACKSPACE''] then Inr (named_bytes cmd)
      else Inr (if combo_keys cmd arg = [] then []
                else press_release (combo_mod cmd arg) (combo_keys cmd arg)))"

definition is_comment :: "string \<Rightarrow> bool" where
  "is_comment l = (strip l = [] \<or> startswith (strip l) [''REM'', ''//'', ''#''])"

definition first_word :: "string \<Rightarrow> string" where
  "first_word l = takeWhile (\<lambda>c. \<not> isspace c) (strip l)"

definition remainder :: "string \<Rightarrow> string" where
  "remainder l = strip (dropWhile (\<lambda>c. \<not> isspace c) (strip l))"

definition line_result :: "nat \<Rightarrow> string \<Rightarrow> exn + byte list" where
  "line_result mem l =
     (if is_comment l then Inr [] else command_result mem (upper (first_word l)) (remainder l))"

definition line_bytes :: "nat \<Rightarrow> string \<Rightarrow> byte list" where
  "line_bytes mem l = (case line_result mem l of Inl e \<Rightarrow> [] | Inr bs \<Rightarrow> bs)"

definition line_diagnostics :: "nat \<Rightarrow> nat \<Rightarrow> string \<Rightarrow> diagnostic list" where
  "line_diagnostics mem nr l =
     (case line_result mem l of Inl e \<Rightarrow> [Diagnostic nr (strip l) e] | Inr bs \<Rightarrow> [])"

section \<open>Properties\<close>

subsection \<open>The tables and the byte array\<close>

lemma KEYMAP_values: "list_all (\<lambda>(k, v). 0 < v \<and> v < 256) KEYMAP"
  by (simp add: KEYMAP_def)

lemma KEYMAP_range: "map_of KEYMAP k = Some v \<Longrightarrow> 0 < v \<and> v < 256"
  using KEYMAP_values by (auto simp: list_all_iff dest!: map_of_SomeD)

lemma shift_item: "getitem MODIFIERS ''shift'' = Inr 2"
  by (simp add: getitem_def MODIFIERS_def)

lemma space_item: "getitem KEYMAP ''space'' = Inr 0x2C"
  by (simp add: getitem_def KEYMAP_def)

lemma enter_item: "getitem KEYMAP ''enter'' = Inr 0x28"
  by (simp add: getitem_def KEYMAP_def)

lemma bytearray_8: "bytearray 8 = [0, 0, 0, 0, 0, 0, 0, 0]"
  by (simp add: bytearray_def numeral_eq_Suc)

lemma setitem_0: "0 \<le> v \<Longrightarrow> v < 256 \<Longrightarrow>
    setitem [a, b, c, d, e, f, g, h] 0 v = Inr [word_of_int v, b, c, d, e, f, g, h]"
  by (simp add: setitem_def)

lemma setitem_2: "0 \<le> v \<Longrightarrow> v < 256 \<Longrightarrow>
    setitem [a, b, c, d, e, f, g, h] 2 v = Inr [a, b, word_of_int v, d, e, f, g, h]"
  by (simp add: setitem_def numeral_2_eq_2)

subsection \<open>One character of a \<^verbatim>\<open>STRING\<close> argument\<close>

lemma char_key_range: "0 \<le> char_key ch \<and> char_key ch < 256"
  using KEYMAP_range [of "lower [ch]"] by (auto simp: char_key_def split: option.splits)

lemma press_release_1:
  "press_release md [k] = [word_of_int md, 0, word_of_int k, 0, 0, 0, 0, 0] @ replicate 16 0"
  by (simp add: press_release_def key_down_def numeral_eq_Suc)

lemma not_upper_blank: "\<not> isupper CHR '' ''" "CHR '' '' \<notin> set SHIFTED"
  by (simp_all add: isupper_def SHIFTED_def)

lemma string_char_eq: "string_char ch = Inr (char_bytes ch)"
proof -
  have r: "0 \<le> char_key ch" "char_key ch < 256" using char_key_range by auto
  consider (nl) "ch = CHR 0x0A" | (sp) "ch = CHR '' ''" | (other) "ch \<noteq> CHR 0x0A" "ch \<noteq> CHR '' ''"
    by blast
  then show ?thesis
  proof cases
    case nl
    then show ?thesis
      by (simp add: string_char_def bind_def shift_item space_item enter_item bytearray_8 setitem_0 setitem_2 char_key_def char_mod_def char_bytes_def press_release_1
        split: option.splits)
  next
    case sp
    then show ?thesis
      by (simp add: string_char_def bind_def shift_item space_item enter_item bytearray_8 setitem_0 setitem_2 char_key_def char_mod_def char_bytes_def press_release_1
        not_upper_blank split: option.splits)
  next
    case other
    then show ?thesis
      using r
      by (simp add: string_char_def bind_def shift_item space_item enter_item bytearray_8 setitem_0 setitem_2 char_key_def char_mod_def char_bytes_def press_release_1
        split: option.splits)
  qed
qed

lemma string_loop_eq: "string_loop s binary = (binary @ concat (map char_bytes s), None)"
  by (induction s arbitrary: binary) (simp_all add: string_char_eq)

subsection \<open>Key combinations\<close>

lemma MODIFIERS_values: "list_all (\<lambda>(k, v). v \<in> {1, 2, 4, 8}) MODIFIERS"
  by (simp add: MODIFIERS_def)

lemma MODIFIERS_range: "map_of MODIFIERS k = Some v \<Longrightarrow> take_bit 4 v = v"
  using MODIFIERS_values by (auto simp: list_all_iff dest!: map_of_SomeD)

lemma nibble_range: "take_bit 4 (a::int) = a \<Longrightarrow> 0 \<le> a \<and> a < 16"
  using take_bit_nonnegative[of 4 a] take_bit_int_less_exp[of 4 a] by simp

lemma parse_key_loop_keys: "snd (parse_key_loop ps md keys) = keys @ token_keys ps"
  by (induction ps arbitrary: md keys)
    (auto simp: token_keys_def List.map_filter_simps split: option.splits)

lemma parse_key_loop_mod:
  "take_bit 4 md = md \<Longrightarrow>
   take_bit 4 (fst (parse_key_loop ps md keys)) = fst (parse_key_loop ps md keys)"
  by (induction ps arbitrary: md keys) (auto simp: take_bit_or MODIFIERS_range split: option.splits)

lemma token_keys_range: "list_all (\<lambda>k. 0 < k \<and> k < 256) (token_keys ps)"
  by (induction ps)
    (auto simp: token_keys_def List.map_filter_simps KEYMAP_range split: option.splits)

lemma parse_key_keys: "snd (parse_key s) = token_keys (tokens s)"
  by (simp add: parse_key_def parse_key_loop_keys tokens_def)

lemma parse_key_mod: "take_bit 4 (fst (parse_key s)) = fst (parse_key s)"
  by (simp add: parse_key_def parse_key_loop_mod)

lemma parse_key_empty: "parse_key [] = (0, [])"
  by (simp add: parse_key_def split_def lower_def strip_def MODIFIERS_def KEYMAP_def)

lemma set_keys_eq:
  "length packet = 8 \<Longrightarrow> n + length ks \<le> 6 \<Longrightarrow> list_all (\<lambda>k. 0 < k \<and> k < 256) ks \<Longrightarrow>
   set_keys packet (enumerate n ks) =
     Inr (take (2 + n) packet @ map word_of_int ks @ drop (2 + n + length ks) packet)"
proof (induction ks arbitrary: n packet)
  case Nil
  then show ?case by simp
next
  case (Cons k ks)
  have s: "setitem packet (2 + n) k = Inr (packet[2 + n := word_of_int k])"
    using Cons.prems by (simp add: setitem_def)
  have "set_keys (packet[2 + n := word_of_int k]) (enumerate (Suc n) ks) =
     Inr (take (2 + Suc n) (packet[2 + n := word_of_int k]) @ map word_of_int ks
          @ drop (2 + Suc n + length ks) (packet[2 + n := word_of_int k]))"
    using Cons.prems by (intro Cons.IH) auto
  moreover have "take (2 + Suc n) (packet[2 + n := word_of_int k]) =
      take (2 + n) packet @ [word_of_int k]"
    using Cons.prems by (simp add: take_Suc_conv_app_nth)
  ultimately show ?case
    using s by (simp add: bind_def)
qed

lemma combo_mod_nibble: "take_bit 4 (combo_mod cmd arg) = combo_mod cmd arg"
  by (simp add: combo_mod_def take_bit_or parse_key_mod)

lemma combo_keys_range: "list_all (\<lambda>k. 0 < k \<and> k < 256) (combo_keys cmd arg)"
  by (simp add: combo_keys_def parse_key_keys token_keys_range)

lemma drop_packet: "drop (2 + 0 + m) ([a, b, 0, 0, 0, 0, 0, 0] :: byte list) = replicate (6 - m) 0"
proof -
  have "drop (2 + 0 + m) ([a, b, 0, 0, 0, 0, 0, 0] :: byte list) = drop m (replicate 6 0)"
    by (simp add: numeral_eq_Suc)
  then show ?thesis by simp
qed

lemma packet_keys:
  assumes "0 \<le> md" "md < 256" "list_all (\<lambda>k. 0 < k \<and> k < 256) keys"
  shows "bind (setitem (bytearray 8) 0 md) (\<lambda>packet.
           bind (set_keys packet (enumerate 0 (take 6 keys))) (\<lambda>packet.
             Inr (packet @ replicate 16 0))) = Inr (press_release md keys)"
proof -
  let ?p = "[word_of_int md, 0, 0, 0, 0, 0, 0, 0] :: byte list"
  have a: "setitem (bytearray 8) 0 md = Inr ?p"
    using assms by (simp add: bytearray_8 setitem_0)
  have k: "list_all (\<lambda>k. 0 < k \<and> k < 256) (take 6 keys)"
    using assms(3) by (auto simp: list_all_iff dest: in_set_takeD)
  have b: "set_keys ?p (enumerate 0 (take 6 keys)) =
      Inr (take (2 + 0) ?p @ map word_of_int (take 6 keys) @ drop (2 + 0 + length (take 6 keys)) ?p)"
    using k by (intro set_keys_eq) auto
  have d: "drop (2 + 0 + length (take 6 keys)) ?p = replicate (6 - length keys) 0"
    by (simp only: drop_packet) (simp add: min_def)
  have t: "take (2 + 0) ?p = [word_of_int md, 0]"
    by (simp add: numeral_2_eq_2)
  have b': "set_keys ?p (enumerate 0 (take 6 keys)) =
      Inr ([word_of_int md, 0] @ map word_of_int (take 6 keys) @ replicate (6 - length keys) 0)"
    unfolding b d t by (rule refl)
  show ?thesis
    by (simp add: a b' bind_def press_release_def key_down_def)
qed

lemma key_combo_eq:
  "key_combo cmd arg =
     Inr (if combo_keys cmd arg = [] then [] else press_release (combo_mod cmd arg) (combo_keys cmd arg))"
proof -
  have r: "0 \<le> combo_mod cmd arg" "combo_mod cmd arg < 256"
    using nibble_range [OF combo_mod_nibble, of cmd arg] by auto
  have e: "arg = [] \<Longrightarrow> parse_key arg = (0, [])" by (simp add: parse_key_empty)
  have "key_combo cmd arg =
     (if combo_keys cmd arg \<noteq> []
         then bind (setitem (bytearray 8) 0 (combo_mod cmd arg)) (\<lambda>packet.
              bind (set_keys packet (enumerate 0 (take 6 (combo_keys cmd arg)))) (\<lambda>packet.
              Inr (packet @ replicate 16 0)))
         else Inr [])"
    using e by (cases "arg = []") (simp_all add: key_combo_def combo_mod_def combo_keys_def split_beta Let_def)
  then show ?thesis
    using packet_keys [OF r combo_keys_range] by simp
qed

lemma named_key_eq: "named_key cmd = Inr (named_bytes cmd)"
proof (cases "map_of KEYMAP (lower cmd)")
  case None
  then show ?thesis by (simp add: named_key_def named_bytes_def)
next
  case (Some k)
  then have "0 < k" "k < 256" using KEYMAP_range by auto
  then show ?thesis
    using Some
    by (simp add: named_key_def named_bytes_def bind_def bytearray_8 setitem_2 press_release_1)
qed

lemma frames_zeros: "concat (replicate m (replicate 8 (0::byte))) = replicate (8 * m) 0"
  by (induction m) (simp_all add: replicate_add [symmetric])

lemma bytes_mul_frames:
  assumes "1 \<le> n"
  shows "bytes_mul mem (replicate 8 0) n =
     (if maxsize < 8 * n then Inl OverflowError
      else if \<not> fits mem (nat (8 * n)) then Inl MemoryError
      else Inr (replicate (8 * nat n) 0))"
proof -
  have m: "0 < maxsize" by (simp add: maxsize_def)
  have a: "\<not> (n < - maxsize - 1 \<or> maxsize < n)" if "\<not> maxsize < 8 * n"
    using that assms m by arith
  have b: "8 * nat n = nat (8 * n)" using assms by arith
  show ?thesis
  proof (cases "maxsize < 8 * n")
    case True
    then show ?thesis using assms by (simp add: bytes_mul_def)
  next
    case False
    then show ?thesis using a [OF False] by (simp add: bytes_mul_def frames_zeros b)
  qed
qed

lemma delay_eq:
  "delay mem arg = (case py_int arg of Inl e \<Rightarrow> Inl e | Inr ms \<Rightarrow> delay_result mem ms)"
proof (cases "py_int arg")
  case (Inl e)
  then show ?thesis by (simp add: delay_def bind_def)
next
  case (Inr ms)
  have "1 \<le> max 1 ((ms + 10) div 12)" by simp
  from bytes_mul_frames [OF this, of mem] show ?thesis
    using Inr by (simp add: delay_def bind_def delay_result_def delay_bytes_def Let_def)
qed

lemma reports_Nil: "reports [] = []"
  by (simp add: reports.simps)

lemma reports_frame: "length a = 8 \<Longrightarrow> reports (a @ b) = a # reports b"
  by (subst reports.simps) auto

lemma well_formed_Nil: "well_formed []"
  by (simp add: well_formed_def reports_Nil)

lemma well_formed_frame: "report_ok a \<Longrightarrow> well_formed b \<Longrightarrow> well_formed (a @ b)"
  by (simp add: well_formed_def reports_frame report_ok_def)

lemma well_formed_append: "well_formed a \<Longrightarrow> well_formed b \<Longrightarrow> well_formed (a @ b)"
proof (induction a rule: reports.induct)
  case (1 bs)
  show ?case
  proof (cases "bs = []")
    case True
    then show ?thesis using 1 by simp
  next
    case False
    have d: "8 dvd length bs" using 1(2) by (simp add: well_formed_def)
    then have l: "8 \<le> length bs" using False by (simp add: dvd_imp_le)
    have r: "reports bs = take 8 bs # reports (drop 8 bs)"
      using False by (subst reports.simps) simp
    have ok: "report_ok (take 8 bs)" "well_formed (drop 8 bs)"
      using 1(2) d l by (auto simp: well_formed_def r)
    have "well_formed (drop 8 bs @ b)"
      using 1(1) [OF False ok(2) 1(3)] .
    then have "well_formed (take 8 bs @ drop 8 bs @ b)"
      using ok(1) by (rule well_formed_frame [rotated])
    then show ?thesis by (metis append_assoc append_take_drop_id)
  qed
qed

lemma zero_report_ok: "report_ok (replicate 8 0)"
  by (simp add: report_ok_def)

lemma well_formed_zeros: "well_formed (replicate (8 * n) 0)"
proof (induction n)
  case 0
  then show ?case by (simp add: well_formed_Nil)
next
  case (Suc n)
  have "replicate (8 * Suc n) (0::byte) = replicate 8 0 @ replicate (8 * n) 0"
    by (simp add: replicate_add [symmetric])
  then show ?case using Suc zero_report_ok by (simp add: well_formed_frame)
qed

lemma nibble_word: "take_bit 4 (md::int) = md \<Longrightarrow> (word_of_int md :: byte) AND 0xF0 = 0"
proof -
  assume "take_bit 4 md = md"
  then have "0 \<le> md" "md < 16" using nibble_range by auto
  then have "md = 0 \<or> md = 1 \<or> md = 2 \<or> md = 3 \<or> md = 4 \<or> md = 5 \<or> md = 6 \<or> md = 7 \<or>
    md = 8 \<or> md = 9 \<or> md = 10 \<or> md = 11 \<or> md = 12 \<or> md = 13 \<or> md = 14 \<or> md = 15"
    by arith
  then show ?thesis by (elim disjE) simp_all
qed

lemma key_down_ok: "take_bit 4 md = md \<Longrightarrow> report_ok (key_down md keys)"
  by (simp add: report_ok_def key_down_def nibble_word)

lemma press_release_wf: "take_bit 4 md = md \<Longrightarrow> well_formed (press_release md keys)"
proof -
  assume m: "take_bit 4 md = md"
  have "replicate 16 (0::byte) = replicate (8 * 2) 0" by simp
  then have "well_formed (replicate 16 0)" using well_formed_zeros [of 2] by simp
  then show ?thesis
    unfolding press_release_def using key_down_ok [OF m] by (rule well_formed_frame [rotated])
qed

lemma try_body_eq:
  "try_body mem cmd arg binary =
     (case command_result mem cmd arg of Inl e \<Rightarrow> (binary, Some e) | Inr bs \<Rightarrow> (binary @ bs, None))"
  by (simp add: try_body_def command_result_def delay_eq string_loop_eq named_key_eq key_combo_eq
      split: sum.splits)

lemma strip_dropWhile: "dropWhile isspace (strip l) = strip l"
proof (cases "dropWhile isspace l")
  case Nil
  show ?thesis unfolding strip_def Nil by simp
next
  case (Cons c cs)
  then have c: "\<not> isspace c" by (metis hd_dropWhile list.sel(1) list.discI)
  have "strip l = rev (dropWhile isspace (rev (c # cs)))" by (simp add: strip_def Cons)
  show ?thesis
  proof (cases "strip l")
    case Nil
    then show ?thesis by simp
  next
    case (Cons d ds)
    have "\<exists>zs. dropWhile isspace (rev (c # cs)) = zs @ [c]"
      using c by (simp add: dropWhile_append3)
    then obtain zs where "dropWhile isspace (rev (c # cs)) = zs @ [c]" by blast
    then have "strip l = c # rev zs" using \<open>dropWhile isspace l = c # cs\<close> by (simp add: strip_def)
    then show ?thesis using c by simp
  qed
qed

lemma strip_idem: "strip (strip l) = strip l"
proof -
  have "dropWhile isspace (rev (strip l)) = rev (strip l)"
  proof (cases "rev (strip l)")
    case Nil
    then show ?thesis by simp
  next
    case (Cons c cs)
    have "rev (strip l) = dropWhile isspace (rev (dropWhile isspace l))" by (simp add: strip_def)
    then have "\<not> isspace c" using Cons by (metis hd_dropWhile list.sel(1) list.discI)
    then show ?thesis using Cons by simp
  qed
  then show ?thesis
    by (simp add: strip_def [of "strip l"] strip_dropWhile)
qed

lemma strip_dropWhile_cancel: "strip (dropWhile isspace xs) = strip xs"
  by (simp add: strip_def)

lemma strip_Nil: "strip [] = []"
  by (simp add: strip_def)

lemma split_maxsplit1_strip:
  assumes "strip l \<noteq> []"
  shows "split_maxsplit1 (strip l) =
    (if dropWhile isspace (dropWhile (\<lambda>c. \<not> isspace c) (strip l)) = [] then [first_word l]
     else [first_word l, dropWhile isspace (dropWhile (\<lambda>c. \<not> isspace c) (strip l))])"
proof -
  have "split_maxsplit1 (strip l) =
     (let s1 = strip l in
      if s1 = [] then []
      else let w = takeWhile (\<lambda>c. \<not> isspace c) s1;
               r = dropWhile isspace (dropWhile (\<lambda>c. \<not> isspace c) s1)
           in if r = [] then [w] else [w, r])"
    unfolding split_maxsplit1_def strip_dropWhile ..
  then show ?thesis
    using assms by (simp only: Let_def first_word_def if_False)
qed


lemma line_arg:
  assumes "strip l \<noteq> []"
  shows "(if length (split_maxsplit1 (strip l)) > 1 then strip (split_maxsplit1 (strip l) ! 1) else [])
     = remainder l"
proof -
  let ?r = "dropWhile isspace (dropWhile (\<lambda>c. \<not> isspace c) (strip l))"
  have r: "strip ?r = remainder l"
    unfolding remainder_def by (rule strip_dropWhile_cancel)
  show ?thesis
  proof (cases "?r = []")
    case True
    then have "remainder l = []" using r strip_Nil by metis
    moreover have "split_maxsplit1 (strip l) = [first_word l]"
      using True by (simp only: split_maxsplit1_strip [OF assms] if_True simp_thms)
    ultimately show ?thesis by simp
  next
    case False
    then have "split_maxsplit1 (strip l) = [first_word l, ?r]"
      by (simp only: split_maxsplit1_strip [OF assms] if_False simp_thms)
    then show ?thesis using r by simp
  qed
qed

lemma split_maxsplit1_Cons:
  assumes "strip l \<noteq> []"
  shows "\<exists>ps. split_maxsplit1 (strip l) = first_word l # ps"
  unfolding split_maxsplit1_strip [OF assms] by (cases "dropWhile isspace (dropWhile (\<lambda>c. \<not> isspace c) (strip l)) = []") (simp_all only: if_True if_False simp_thms, blast+)

lemma compile_line_comment:
  "is_comment l \<Longrightarrow> compile_line mem nr l (binary, printed) = Inr (binary, printed)"
  unfolding compile_line_def is_comment_def by (simp only: Let_def prod.case if_True)

lemma compile_line_command:
  assumes "\<not> is_comment l"
  shows "compile_line mem nr l (binary, printed) =
     (case try_body mem (upper (first_word l)) (remainder l) binary of
        (binary', None) \<Rightarrow> Inr (binary', printed)
      | (binary', Some e) \<Rightarrow> Inr (binary', printed @ [Diagnostic nr (strip l) e]))"
proof -
  from assms have ne: "strip l \<noteq> []" and c: "\<not> (strip l = [] \<or> startswith (strip l) [''REM'', ''//'', ''#''])"
    by (auto simp only: is_comment_def)
  obtain ps where ps: "split_maxsplit1 (strip l) = first_word l # ps"
    using split_maxsplit1_Cons [OF ne] by blast
  have a: "(if 1 < length (first_word l # ps) then strip ((first_word l # ps) ! 1) else []) = remainder l"
    using line_arg [OF ne] unfolding ps .
  show ?thesis
    unfolding compile_line_def
    by (simp only: Let_def prod.case c if_False ps list.case a)
qed

lemma compile_line_eq:
  "compile_line mem nr l (binary, printed) =
     Inr (binary @ line_bytes mem l, printed @ line_diagnostics mem nr l)"
proof (cases "is_comment l")
  case True
  then show ?thesis
    by (simp add: compile_line_comment line_bytes_def line_diagnostics_def line_result_def)
next
  case False
  have lr: "line_result mem l = command_result mem (upper (first_word l)) (remainder l)"
    using False by (simp add: line_result_def)
  show ?thesis
    unfolding compile_line_command [OF False] try_body_eq line_bytes_def line_diagnostics_def lr
    by (cases "command_result mem (upper (first_word l)) (remainder l)") simp_all
qed

lemma compile_lines_eq:
  "compile_lines mem ls nr (binary, printed) =
     Inr (binary @ concat (map (line_bytes mem) ls),
          printed @ concat (map (\<lambda>(n, l). line_diagnostics mem n l) (enumerate (Suc nr) ls)))"
  by (induction ls arbitrary: nr binary printed) (simp_all add: compile_line_eq bind_def)

lemma compile_eq:
  "compile_duckyscript mem text =
     Inr (concat (map (line_bytes mem) (splitlines text)),
          concat (map (\<lambda>(n, l). line_diagnostics mem n l) (enumerate 1 (splitlines text))))"
  by (simp add: compile_duckyscript_def compile_lines_eq)

lemma line_result_failed:
  "line_result mem l = Inl e \<Longrightarrow> line_bytes mem l = [] \<and> line_diagnostics mem nr l = [Diagnostic nr (strip l) e]"
  by (simp add: line_bytes_def line_diagnostics_def)

lemma line_result_compiled:
  "line_result mem l = Inr bs \<Longrightarrow> line_bytes mem l = bs \<and> line_diagnostics mem nr l = []"
  by (simp add: line_bytes_def line_diagnostics_def)

lemma char_mod_nibble: "take_bit 4 (char_mod ch) = char_mod ch"
  by (simp add: char_mod_def)

lemma char_bytes_wf: "well_formed (char_bytes ch)"
  by (simp add: char_bytes_def well_formed_Nil press_release_wf char_mod_nibble)

lemma string_bytes_wf: "well_formed (concat (map char_bytes s))"
  by (induction s) (simp_all add: well_formed_Nil well_formed_append char_bytes_wf)

lemma named_bytes_wf: "well_formed (named_bytes cmd)"
  by (simp add: named_bytes_def well_formed_Nil press_release_wf split: option.splits)

lemma delay_bytes_wf: "well_formed (delay_bytes ms)"
  by (simp add: delay_bytes_def well_formed_zeros)

lemma command_result_wf: "command_result mem cmd arg = Inr bs \<Longrightarrow> well_formed bs"
proof -
  assume r: "command_result mem cmd arg = Inr bs"
  consider (d) "cmd = ''DELAY''"
    | (s) "cmd \<noteq> ''DELAY''" "cmd = ''STRING''"
    | (n) "cmd \<noteq> ''DELAY''" "cmd \<noteq> ''STRING''"
          "cmd \<in> set [''ENTER'', ''TAB'', ''ESC'', ''BACKSPACE'']"
    | (k) "cmd \<noteq> ''DELAY''" "cmd \<noteq> ''STRING''"
          "cmd \<notin> set [''ENTER'', ''TAB'', ''ESC'', ''BACKSPACE'']"
    by blast
  then show ?thesis
  proof cases
    case d
    have "command_result mem cmd arg =
        (case py_int arg of Inl e \<Rightarrow> Inl e | Inr ms \<Rightarrow> delay_result mem ms)"
      unfolding command_result_def by (simp only: if_P [OF d])
    then have "\<exists>ms. bs = delay_bytes ms"
      using r by (cases "py_int arg") (auto simp: delay_result_def split: if_splits)
    then obtain ms where "bs = delay_bytes ms" ..
    then show ?thesis by (simp add: delay_bytes_wf)
  next
    case s
    have "command_result mem cmd arg = Inr (concat (map char_bytes arg))"
      unfolding command_result_def by (simp only: if_not_P [OF s(1)] if_P [OF s(2)])
    then show ?thesis using r by (simp add: string_bytes_wf)
  next
    case n
    have "command_result mem cmd arg = Inr (named_bytes cmd)"
      unfolding command_result_def
      by (simp only: if_not_P [OF n(1)] if_not_P [OF n(2)] if_P [OF n(3)])
    then show ?thesis using r by (simp add: named_bytes_wf)
  next
    case k
    have "command_result mem cmd arg = Inr (if combo_keys cmd arg = [] then []
                else press_release (combo_mod cmd arg) (combo_keys cmd arg))"
      unfolding command_result_def
      by (simp only: if_not_P [OF k(1)] if_not_P [OF k(2)] if_not_P [OF k(3)])
    then show ?thesis
      using r by (auto simp: well_formed_Nil press_release_wf combo_mod_nibble)
  qed
qed

lemma line_bytes_wf: "well_formed (line_bytes mem l)"
proof (cases "line_result mem l")
  case (Inl e)
  then show ?thesis by (simp add: line_bytes_def well_formed_Nil)
next
  case (Inr bs)
  then have "well_formed bs"
    by (auto simp: line_result_def well_formed_Nil command_result_wf split: if_splits)
  then show ?thesis using Inr by (simp add: line_bytes_def)
qed

lemma lines_bytes_wf: "well_formed (concat (map (line_bytes mem) ls))"
  by (induction ls) (simp_all add: well_formed_Nil well_formed_append line_bytes_wf)

subsection \<open>The layout of the compiled stream\<close>

lemma well_formed_length: "well_formed bs \<Longrightarrow> 8 dvd length bs"
  by (simp add: well_formed_def)

lemma well_formed_reports:
  "well_formed bs \<Longrightarrow> r \<in> set (reports bs) \<Longrightarrow> length r = 8 \<and> r ! 1 = 0 \<and> (r ! 0) AND 0xF0 = 0"
  by (simp add: well_formed_def list_all_iff report_ok_def)

lemma ex_gui_r:
  "compile_duckyscript mem ''GUI r'' = Inr ([8, 0, 0x15, 0, 0, 0, 0, 0] @ replicate 16 0, [])"
  by code_simp

lemma reports_gui_r:
  "reports ([8, 0, 0x15, 0, 0, 0, 0, 0] @ replicate 16 0) =
     [[8, 0, 0x15, 0, 0, 0, 0, 0], replicate 8 0, replicate 8 0]"
  by code_simp

text \<open>
  Claim C8. For every script text, whatever the memory of the machine, the compilation
  returns, and the length of the returned byte stream is a multiple of 8.
\<close>

theorem stream_length_multiple_of_8:
  "\<exists>binary printed. compile_duckyscript mem text = Inr (binary, printed) \<and> 8 dvd length binary"
  using well_formed_length [OF lines_bytes_wf] by (simp add: compile_eq)

theorem stream_length_multiple_of_8_witness:
  "compile_duckyscript 0 ''GUI r'' = Inr ([8, 0, 0x15, 0, 0, 0, 0, 0] @ replicate 16 0, []) \<and>
   8 dvd length ([8, 0, 0x15, 0, 0, 0, 0, 0] @ replicate 16 0 :: byte list)"
  using stream_length_multiple_of_8 [of 0 "''GUI r''"] by (simp add: ex_gui_r)

text \<open>
  Claim C9. For every script text, whatever the memory of the machine, the compilation
  returns, and in every 8-byte report of the returned byte stream byte 1 is zero and bits
  4 to 7 of byte 0 are clear.
\<close>

theorem report_reserved_and_modifier_bits:
  "\<exists>binary printed. compile_duckyscript mem text = Inr (binary, printed) \<and>
     (\<forall>r \<in> set (reports binary). length r = 8 \<and> r ! 1 = 0 \<and> (r ! 0) AND 0xF0 = 0)"
  using well_formed_reports [OF lines_bytes_wf] by (simp add: compile_eq)

theorem report_reserved_and_modifier_bits_witness:
  "compile_duckyscript 0 ''GUI r'' = Inr ([8, 0, 0x15, 0, 0, 0, 0, 0] @ replicate 16 0, []) \<and>
   ([8, 0, 0x15, 0, 0, 0, 0, 0] :: byte list) \<in> set (reports ([8, 0, 0x15, 0, 0, 0, 0, 0] @ replicate 16 0)) \<and>
   length ([8, 0, 0x15, 0, 0, 0, 0, 0] :: byte list) = 8 \<and>
   ([8, 0, 0x15, 0, 0, 0, 0, 0] :: byte list) ! 1 = 0 \<and>
   (([8, 0, 0x15, 0, 0, 0, 0, 0] :: byte list) ! 0) AND 0xF0 = 0"
proof -
  obtain binary printed where c: "compile_duckyscript 0 ''GUI r'' = Inr (binary, printed)"
    and a: "\<forall>r \<in> set (reports binary). length r = 8 \<and> r ! 1 = 0 \<and> (r ! 0) AND 0xF0 = 0"
    using report_reserved_and_modifier_bits [of 0 "''GUI r''"] by blast
  from c have b: "binary = [8, 0, 0x15, 0, 0, 0, 0, 0] @ replicate 16 0"
    by (simp add: ex_gui_r)
  have m: "[8, 0, 0x15, 0, 0, 0, 0, 0] \<in> set (reports binary)"
    unfolding b reports_gui_r by simp
  show ?thesis
    using ex_gui_r m [unfolded b] a [unfolded b] by blast
qed

subsection \<open>The lines of each kind\<close>

lemma strip_first_word: "strip l = first_word l @ dropWhile (\<lambda>c. \<not> isspace c) (strip l)"
  by (simp add: first_word_def)

lemma upper_char_fixed:
  "upper_char a = c \<Longrightarrow> a = CHR ''R'' \<or> a = CHR ''/'' \<or> a = CHR ''#'' \<Longrightarrow> a = c"
  by (auto simp: upper_char_def islower_def)

lemma command_not_comment:
  assumes u: "upper (first_word l) = c # cs"
    and c: "c \<noteq> CHR ''R''" "c \<noteq> CHR ''/''" "c \<noteq> CHR ''#''"
  shows "\<not> is_comment l"
proof -
  from u obtain a as where w: "first_word l = a # as" and a: "upper_char a = c"
    by (auto simp: upper_def)
  have s: "strip l = a # (as @ dropWhile (\<lambda>c. \<not> isspace c) (strip l))"
    using strip_first_word [of l] unfolding w by simp
  have n: "a \<noteq> CHR ''R''" "a \<noteq> CHR ''/''" "a \<noteq> CHR ''#''"
    using upper_char_fixed [OF a] c by auto
  show ?thesis
    unfolding is_comment_def startswith_def
    by (subst s, subst s) (simp add: n)
qed

lemma compile_line_result:
  assumes "\<not> is_comment l"
  shows "compile_line mem nr l (binary, printed) =
     (case command_result mem (upper (first_word l)) (remainder l) of
        Inl e \<Rightarrow> Inr (binary, printed @ [Diagnostic nr (strip l) e])
      | Inr bs \<Rightarrow> Inr (binary @ bs, printed))"
  unfolding compile_line_command [OF assms] try_body_eq
  by (cases "command_result mem (upper (first_word l)) (remainder l)") simp_all

lemma delay_not_comment: "upper (first_word l) = ''DELAY'' \<Longrightarrow> \<not> is_comment l"
  by (rule command_not_comment [of l "CHR ''D''" "''ELAY''"]) simp_all

lemma string_not_comment: "upper (first_word l) = ''STRING'' \<Longrightarrow> \<not> is_comment l"
  by (rule command_not_comment [of l "CHR ''S''" "''TRING''"]) simp_all

lemma delay_line:
  assumes "upper (first_word l) = ''DELAY''"
  shows "compile_line mem nr l (binary, printed) =
     (case py_int (remainder l) of
        Inl e \<Rightarrow> Inr (binary, printed @ [Diagnostic nr (strip l) e])
      | Inr ms \<Rightarrow>
          (case delay_result mem ms of
             Inl e \<Rightarrow> Inr (binary, printed @ [Diagnostic nr (strip l) e])
           | Inr bs \<Rightarrow> Inr (binary @ bs, printed)))"
  unfolding compile_line_result [OF delay_not_comment [OF assms]] assms command_result_def
  by (cases "py_int (remainder l)") simp_all

lemma delay_result_small: "ms \<le> 37 \<Longrightarrow> delay_result mem ms = Inr (delay_bytes ms)"
proof -
  assume "ms \<le> 37"
  then have "(ms + 10) div 12 \<le> 3" by simp
  then have a: "8 * max 1 ((ms + 10) div 12) \<le> 24" by simp
  then have b: "nat (8 * max 1 ((ms + 10) div 12)) \<le> 24" by simp
  have "\<not> maxsize < 8 * max 1 ((ms + 10) div 12)" using a by (simp add: maxsize_def)
  then show ?thesis using b by (simp add: delay_result_def fits_def)
qed

lemma string_line:
  assumes "upper (first_word l) = ''STRING''"
  shows "compile_line mem nr l (binary, printed) =
     Inr (binary @ concat (map char_bytes (remainder l)), printed)"
  unfolding compile_line_result [OF string_not_comment [OF assms]] assms command_result_def
  by simp


lemma combo_line:
  assumes "\<not> is_comment l"
    and "upper (first_word l) \<notin> set [''DELAY'', ''STRING'', ''ENTER'', ''TAB'', ''ESC'', ''BACKSPACE'']"
  shows "compile_line mem nr l (binary, printed) =
     Inr (binary @ (if combo_keys (upper (first_word l)) (remainder l) = [] then []
                    else press_release (combo_mod (upper (first_word l)) (remainder l))
                           (combo_keys (upper (first_word l)) (remainder l))), printed)"
proof -
  have "command_result mem (upper (first_word l)) (remainder l) =
    Inr (if combo_keys (upper (first_word l)) (remainder l) = [] then []
         else press_release (combo_mod (upper (first_word l)) (remainder l))
                (combo_keys (upper (first_word l)) (remainder l)))"
    using assms(2) by (simp add: command_result_def)
  then show ?thesis
    unfolding compile_line_result [OF assms(1)] by simp
qed

lemma rem_comment: "take 3 (strip l) = ''REM'' \<Longrightarrow> is_comment l"
  by (simp add: is_comment_def startswith_def numeral_3_eq_3)

lemma first_word_rem: "first_word l = ''REM'' \<Longrightarrow> take 3 (strip l) = ''REM''"
  by (subst strip_first_word) simp

lemma shifted_no_key: "list_all (\<lambda>ch. map_of KEYMAP (lower [ch]) = None) SHIFTED"
  by code_simp

lemma shifted_not_blank: "list_all (\<lambda>ch. ch \<noteq> CHR 0x0A \<and> ch \<noteq> CHR '' '') SHIFTED"
  by code_simp

lemma shifted_char_bytes:
  assumes "ch \<in> set SHIFTED"
  shows "map_of KEYMAP (lower [ch]) = None" "char_key ch = 0" "char_mod ch = 2" "char_bytes ch = []"
proof -
  show k: "map_of KEYMAP (lower [ch]) = None"
    using shifted_no_key assms by (simp add: list_all_iff)
  have b: "ch \<noteq> CHR 0x0A" "ch \<noteq> CHR '' ''"
    using shifted_not_blank assms by (auto simp: list_all_iff)
  show z: "char_key ch = 0" using k b by (simp add: char_key_def)
  show "char_mod ch = 2" using assms b by (simp add: char_mod_def)
  show "char_bytes ch = []" using z by (simp add: char_bytes_def)
qed

subsection \<open>\<^verbatim>\<open>DELAY\<close> lines\<close>
























lemma word_delay_abc: "upper (first_word ''DELAY abc'') = ''DELAY''"
  by code_simp

lemma arg_delay_abc: "py_int (remainder ''DELAY abc'') = Inl (ValueError ''abc'')"
  by code_simp

lemma strip_delay_abc: "strip ''DELAY abc'' = ''DELAY abc''"
  by code_simp

lemma word_delay_neg: "upper (first_word ''DELAY -5'') = ''DELAY''"
  by code_simp

lemma arg_delay_neg: "py_int (remainder ''DELAY -5'') = Inr (- 5)"
  by code_simp

lemma delay_bytes_negative: "ms < 0 \<Longrightarrow> delay_bytes ms = replicate 8 0"
proof -
  assume "ms < 0"
  then have "(ms + 10) div 12 \<le> 0" by simp
  then have "max 1 ((ms + 10) div 12) = 1" by simp
  then show ?thesis by (simp add: delay_bytes_def)
qed

text \<open>
  Claim C5, as the code has it. The remainder of a \<^verbatim>\<open>DELAY\<close> line is read by \<^verbatim>\<open>int\<close>, which
  accepts a sign. When the remainder of line \<open>l\<close> does not parse as an integer, the line
  leaves the stream as it is and prints one diagnostic, for that line, and the loop goes on
  with the next line. When the remainder of line \<open>l'\<close> parses as a negative integer, the line
  appends one all-zero frame and prints nothing. Both hold whatever the memory of the
  machine.
\<close>

theorem delay_parse_failure:
  "(upper (first_word l) = ''DELAY'' \<and> py_int (remainder l) = Inl e \<longrightarrow>
      compile_line mem nr l (binary, printed) = Inr (binary, printed @ [Diagnostic nr (strip l) e]) \<and>
      compile_lines mem (l # rest) n (binary, printed) =
        compile_lines mem rest (n + 1) (binary, printed @ [Diagnostic (n + 1) (strip l) e]))
   \<and> (upper (first_word l') = ''DELAY'' \<and> py_int (remainder l') = Inr ms \<and> ms < 0 \<longrightarrow>
      compile_line mem nr l' (binary, printed) = Inr (binary @ replicate 8 0, printed))"
proof -
  have a: "compile_line mem k l (binary, printed) = Inr (binary, printed @ [Diagnostic k (strip l) e])"
    if "upper (first_word l) = ''DELAY''" and "py_int (remainder l) = Inl e" for k
    unfolding delay_line [OF that(1)] that(2) by simp
  have b: "compile_lines mem (l # rest) n (binary, printed) =
        compile_lines mem rest (n + 1) (binary, printed @ [Diagnostic (n + 1) (strip l) e])"
    if "upper (first_word l) = ''DELAY''" and "py_int (remainder l) = Inl e"
    by (simp add: a [OF that] bind_def)
  have c: "compile_line mem nr l' (binary, printed) = Inr (binary @ replicate 8 0, printed)"
    if "upper (first_word l') = ''DELAY''" and "py_int (remainder l') = Inr ms" and "ms < 0"
  proof -
    have "ms \<le> 37" using that(3) by simp
    then show ?thesis
      unfolding delay_line [OF that(1)] that(2)
      by (simp add: delay_result_small delay_bytes_negative [OF that(3)])
  qed
  show ?thesis
    using a [of nr] b c by blast
qed

theorem delay_parse_failure_witness:
  "upper (first_word ''DELAY abc'') = ''DELAY'' \<and>
   py_int (remainder ''DELAY abc'') = Inl (ValueError ''abc'') \<and>
   compile_line 0 1 ''DELAY abc'' ([], []) = Inr ([], [Diagnostic 1 ''DELAY abc'' (ValueError ''abc'')]) \<and>
   compile_lines 0 [''DELAY abc'', ''ENTER''] 0 ([], []) =
     compile_lines 0 [''ENTER''] 1 ([], [Diagnostic 1 ''DELAY abc'' (ValueError ''abc'')]) \<and>
   upper (first_word ''DELAY -5'') = ''DELAY'' \<and> py_int (remainder ''DELAY -5'') = Inr (- 5) \<and>
   (- 5 :: int) < 0 \<and>
   compile_line 0 1 ''DELAY -5'' ([], []) = Inr (replicate 8 0, [])"
  using delay_parse_failure [of "''DELAY abc''" "ValueError ''abc''" 0 1 "[]" "[]" "[''ENTER'']" 0
      "''DELAY -5''" "- 5"]
    word_delay_abc arg_delay_abc strip_delay_abc word_delay_neg arg_delay_neg
  by (simp del: compile_lines.simps)

theorem delay_negative_counterexample:
  "upper (first_word ''DELAY -5'') = ''DELAY'' \<and> remainder ''DELAY -5'' = ''-5'' \<and>
   compile_duckyscript 0 ''DELAY -5'' = Inr (replicate 8 0, [])"
  by code_simp

subsection \<open>\<^verbatim>\<open>STRING\<close> lines\<close>

lemma ex_string_A:
  "compile_duckyscript mem ''STRING A'' = Inr ([2, 0, 4, 0, 0, 0, 0, 0] @ replicate 16 0, [])"
  by code_simp

lemma ex_string_ab:
  "compile_duckyscript mem ''STRING ab'' =
     Inr ([0, 0, 4, 0, 0, 0, 0, 0] @ replicate 16 0 @ [0, 0, 5, 0, 0, 0, 0, 0] @ replicate 16 0, [])"
  by code_simp

lemma char_bytes_report:
  "char_bytes ch =
     (if char_key ch = 0 then []
      else [word_of_int (char_mod ch), 0, word_of_int (char_key ch), 0, 0, 0, 0, 0] @ replicate 16 0)"
  by (simp add: char_bytes_def press_release_1)

lemma word_string_ab: "upper (first_word ''STRING ab'') = ''STRING''"
  by code_simp

lemma arg_string_ab: "remainder ''STRING ab'' = ''ab''"
  by code_simp

lemma keys_ab: "char_key CHR ''a'' = 4" "char_key CHR ''b'' = 5" "char_key CHR ''A'' = 4"
  "char_mod CHR ''a'' = 0" "char_mod CHR ''b'' = 0" "char_mod CHR ''A'' = 2"
  by code_simp+

text \<open>
  Claim C6. The script \<^verbatim>\<open>STRING A\<close> compiles to 24 bytes: a report with the shift bit in
  byte 0 and the key code of \<^verbatim>\<open>a\<close> in byte 2, then 16 zero bytes. The script \<^verbatim>\<open>STRING ab\<close>
  compiles to two such groups, 48 bytes, with byte 0 zero in both. In general one pass of
  the loop over the characters gives nothing for a character without key code, and
  otherwise one key-down report followed by two all-zero reports; a \<^verbatim>\<open>STRING\<close> line appends
  these groups, character after character, and prints nothing, whatever the memory of the
  machine.
\<close>

theorem string_press_release:
  "compile_duckyscript mem ''STRING A'' = Inr ([2, 0, 4, 0, 0, 0, 0, 0] @ replicate 16 0, [])
   \<and> compile_duckyscript mem ''STRING ab'' =
       Inr ([0, 0, 4, 0, 0, 0, 0, 0] @ replicate 16 0 @ [0, 0, 5, 0, 0, 0, 0, 0] @ replicate 16 0, [])
   \<and> string_char ch =
       Inr (if char_key ch = 0 then []
            else [word_of_int (char_mod ch), 0, word_of_int (char_key ch), 0, 0, 0, 0, 0]
                 @ replicate 16 0)
   \<and> (upper (first_word l) = ''STRING'' \<longrightarrow>
        compile_line mem nr l (binary, printed) =
          Inr (binary @ concat (map (\<lambda>ch.
                 if char_key ch = 0 then []
                 else [word_of_int (char_mod ch), 0, word_of_int (char_key ch), 0, 0, 0, 0, 0]
                      @ replicate 16 0) (remainder l)), printed))"
proof -
  have a: "string_char ch =
       Inr (if char_key ch = 0 then []
            else [word_of_int (char_mod ch), 0, word_of_int (char_key ch), 0, 0, 0, 0, 0]
                 @ replicate 16 0)"
    unfolding string_char_eq char_bytes_report ..
  have b: "compile_line mem nr l (binary, printed) =
          Inr (binary @ concat (map (\<lambda>ch.
                 if char_key ch = 0 then []
                 else [word_of_int (char_mod ch), 0, word_of_int (char_key ch), 0, 0, 0, 0, 0]
                      @ replicate 16 0) (remainder l)), printed)"
    if "upper (first_word l) = ''STRING''"
    unfolding string_line [OF that] char_bytes_report ..
  show ?thesis
    using ex_string_A [of mem] ex_string_ab [of mem] a b by blast
qed

theorem string_press_release_witness:
  "string_char CHR ''A'' = Inr ([2, 0, 4, 0, 0, 0, 0, 0] @ replicate 16 0) \<and>
   upper (first_word ''STRING ab'') = ''STRING'' \<and>
   compile_line 0 1 ''STRING ab'' ([], []) =
     Inr ([0, 0, 4, 0, 0, 0, 0, 0] @ replicate 16 0 @ [0, 0, 5, 0, 0, 0, 0, 0] @ replicate 16 0, [])"
  using string_press_release [of 0 "CHR ''A''" "''STRING ab''" 1 "[]" "[]"]
    word_string_ab arg_string_ab
  by (simp add: keys_ab)

subsection \<open>Key-combination lines\<close>

lemma ex_seven:
  "compile_duckyscript mem ''a-b-c-d-e-f-g'' = Inr ([0, 0, 4, 5, 6, 7, 8, 9] @ replicate 16 0, [])"
  by code_simp

lemma press_release_report:
  "press_release md keys =
     [word_of_int md, 0] @ map word_of_int (take 6 keys) @ replicate (6 - length keys) 0
     @ replicate 16 0"
  by (simp add: press_release_def key_down_def)

lemma seven_not_comment: "\<not> is_comment ''a-b-c-d-e-f-g''"
  by code_simp

lemma word_seven: "upper (first_word ''a-b-c-d-e-f-g'') = ''A-B-C-D-E-F-G''"
  by code_simp

lemma arg_seven: "remainder ''a-b-c-d-e-f-g'' = []"
  by code_simp

lemma keys_seven: "combo_keys ''A-B-C-D-E-F-G'' [] = [4, 5, 6, 7, 8, 9, 10]"
  "combo_mod ''A-B-C-D-E-F-G'' [] = 0"
  by code_simp+

text \<open>
  Claim C7. A line that is no comment and whose command word is none of \<^verbatim>\<open>DELAY\<close>,
  \<^verbatim>\<open>STRING\<close>, \<^verbatim>\<open>ENTER\<close>, \<^verbatim>\<open>TAB\<close>, \<^verbatim>\<open>ESC\<close>, \<^verbatim>\<open>BACKSPACE\<close> is a key combination: the keys of
  the command word come first, then the keys of the remainder. When there is a key, the
  line appends one report with the merged modifier mask in byte 0 and the first six key
  codes in bytes 2 to 7 (unused slots zero), then two all-zero reports; it prints nothing,
  however many keys are named and whatever the memory of the machine. The script of seven
  letter keys compiles to the group with the first six, and \<^verbatim>\<open>GUI r\<close> to the group with
  the gui bit and the key code of \<^verbatim>\<open>r\<close> in slot 0.
\<close>

theorem combo_first_six_keys:
  "(\<not> is_comment l \<and>
    upper (first_word l) \<notin> set [''DELAY'', ''STRING'', ''ENTER'', ''TAB'', ''ESC'', ''BACKSPACE''] \<and>
    keys = snd (parse_key (upper (first_word l))) @ snd (parse_key (remainder l)) \<and>
    md = fst (parse_key (upper (first_word l))) OR fst (parse_key (remainder l)) \<longrightarrow>
      compile_line mem nr l (binary, printed) =
        Inr (binary @ (if keys = [] then []
                       else [word_of_int md, 0] @ map word_of_int (take 6 keys)
                            @ replicate (6 - length keys) 0 @ replicate 16 0), printed))
   \<and> compile_duckyscript mem ''a-b-c-d-e-f-g'' = Inr ([0, 0, 4, 5, 6, 7, 8, 9] @ replicate 16 0, [])
   \<and> compile_duckyscript mem ''GUI r'' = Inr ([8, 0, 0x15, 0, 0, 0, 0, 0] @ replicate 16 0, [])"
proof -
  have "compile_line mem nr l (binary, printed) =
        Inr (binary @ (if keys = [] then []
                       else [word_of_int md, 0] @ map word_of_int (take 6 keys)
                            @ replicate (6 - length keys) 0 @ replicate 16 0), printed)"
    if c: "\<not> is_comment l"
      and w: "upper (first_word l) \<notin> set [''DELAY'', ''STRING'', ''ENTER'', ''TAB'', ''ESC'', ''BACKSPACE'']"
      and k: "keys = snd (parse_key (upper (first_word l))) @ snd (parse_key (remainder l))"
      and m: "md = fst (parse_key (upper (first_word l))) OR fst (parse_key (remainder l))"
    unfolding combo_line [OF c w] press_release_report k m combo_keys_def combo_mod_def ..
  then show ?thesis
    using ex_seven [of mem] ex_gui_r [of mem] by blast
qed

theorem combo_first_six_keys_witness:
  "\<not> is_comment ''a-b-c-d-e-f-g'' \<and>
   upper (first_word ''a-b-c-d-e-f-g'')
     \<notin> set [''DELAY'', ''STRING'', ''ENTER'', ''TAB'', ''ESC'', ''BACKSPACE''] \<and>
   snd (parse_key (upper (first_word ''a-b-c-d-e-f-g''))) @ snd (parse_key (remainder ''a-b-c-d-e-f-g''))
     = [4, 5, 6, 7, 8, 9, 10] \<and>
   fst (parse_key (upper (first_word ''a-b-c-d-e-f-g''))) OR fst (parse_key (remainder ''a-b-c-d-e-f-g''))
     = 0 \<and>
   compile_line 0 1 ''a-b-c-d-e-f-g'' ([], []) = Inr ([0, 0, 4, 5, 6, 7, 8, 9] @ replicate 16 0, [])"
proof -
  have k: "snd (parse_key ''A-B-C-D-E-F-G'') @ snd (parse_key []) = [4, 5, 6, 7, 8, 9, 10]"
    using keys_seven(1) unfolding combo_keys_def .
  have m: "fst (parse_key ''A-B-C-D-E-F-G'') OR fst (parse_key []) = 0"
    using keys_seven(2) unfolding combo_mod_def .
  have w: "''A-B-C-D-E-F-G'' \<notin> set [''DELAY'', ''STRING'', ''ENTER'', ''TAB'', ''ESC'', ''BACKSPACE'']"
    by simp
  have "compile_line 0 1 ''a-b-c-d-e-f-g'' ([], []) =
      Inr ([] @ (if [4, 5, 6, 7, 8, 9, 10 :: int] = [] then []
                 else [word_of_int 0, 0] @ map word_of_int (take 6 [4, 5, 6, 7, 8, 9, 10])
                      @ replicate (6 - length [4, 5, 6, 7, 8, 9, 10 :: int]) 0 @ replicate 16 0), [])"
    using combo_first_six_keys [of "''a-b-c-d-e-f-g''" "[4, 5, 6, 7, 8, 9, 10]" 0 0 1 "[]" "[]"]
      seven_not_comment w k [symmetric] m [symmetric]
    unfolding word_seven arg_seven by blast
  then have "compile_line 0 1 ''a-b-c-d-e-f-g'' ([], []) =
      Inr ([0, 0, 4, 5, 6, 7, 8, 9] @ replicate 16 0, [])"
    by simp
  then show ?thesis
    using seven_not_comment w k m unfolding word_seven arg_seven by blast
qed

subsection \<open>Shifted punctuation, the key codes of a combination, comments\<close>

lemma bang_shifted: "CHR ''!'' \<in> set SHIFTED"
  by code_simp

text \<open>
  Claim C10. For a character of the shifted punctuation set the test that sets the shift
  bit succeeds, the key table has no entry under the lower-case form of the character, one
  pass of the loop over the characters gives no bytes, and a \<^verbatim>\<open>STRING\<close> argument compiles
  as the argument without that character does.
\<close>

theorem shifted_punctuation_skipped:
  "ch \<in> set SHIFTED \<longrightarrow>
     (isupper ch \<or> ch \<in> set SHIFTED) \<and> char_mod ch = 2 \<and>
     map_of KEYMAP (lower [ch]) = None \<and>
     string_char ch = Inr [] \<and>
     string_loop (xs @ ch # ys) binary = string_loop (xs @ ys) binary"
proof
  assume s: "ch \<in> set SHIFTED"
  have a: "string_char ch = Inr []"
    unfolding string_char_eq shifted_char_bytes(4) [OF s] ..
  have b: "string_loop (xs @ ch # ys) binary = string_loop (xs @ ys) binary"
    unfolding string_loop_eq by (simp add: shifted_char_bytes(4) [OF s])
  show "(isupper ch \<or> ch \<in> set SHIFTED) \<and> char_mod ch = 2 \<and>
     map_of KEYMAP (lower [ch]) = None \<and>
     string_char ch = Inr [] \<and>
     string_loop (xs @ ch # ys) binary = string_loop (xs @ ys) binary"
    using s shifted_char_bytes(1) [OF s] shifted_char_bytes(3) [OF s] a b by blast
qed

theorem shifted_punctuation_skipped_witness:
  "CHR ''!'' \<in> set SHIFTED \<and> char_mod CHR ''!'' = 2 \<and>
   map_of KEYMAP (lower ''!'') = None \<and>
   string_char CHR ''!'' = Inr [] \<and>
   string_loop ''a!b'' [] = string_loop ''ab'' []"
  using shifted_punctuation_skipped [of "CHR ''!''" "''a''" "''b''" "[]"] bang_shifted
  by simp

lemma parse_ctrl_a_x_a: "parse_key ''ctrl-a-x-a'' = (1, [4, 0x1B, 4])"
  by code_simp

lemma keys_ctrl_a_x_a:
  "List.map_filter (\<lambda>p. if map_of MODIFIERS p = None then map_of KEYMAP p else None)
     (map strip (split (lower ''ctrl-a-x-a'') CHR ''-'')) = [4, 0x1B, 4]"
  by code_simp

text \<open>
  Claim C3, as the code has it. The key codes that \<^verbatim>\<open>parse_key\<close> returns are those of the
  tokens (split at the hyphens, trimmed, in lower case) that name a key and no modifier,
  one for each such token and in the order of the tokens: a token that repeats a key gives
  its key code again. A token that names neither a modifier nor a key gives nothing, and
  \<^verbatim>\<open>parse_key\<close> raises no exception.
\<close>

theorem parse_key_keeps_duplicates:
  "snd (parse_key s) =
     List.map_filter (\<lambda>p. if map_of MODIFIERS p = None then map_of KEYMAP p else None)
       (map strip (split (lower s) CHR ''-''))"
  unfolding parse_key_keys token_keys_def tokens_def ..

theorem parse_key_keeps_duplicates_witness:
  "snd (parse_key ''ctrl-a-x-a'') = [4, 0x1B, 4]"
  using parse_key_keeps_duplicates [of "''ctrl-a-x-a''"] unfolding keys_ctrl_a_x_a .

theorem parse_key_duplicate_counterexample:
  "parse_key ''a-a'' = (0, [4, 4]) \<and> \<not> distinct (snd (parse_key ''a-a''))"
  by code_simp

lemma word_rem: "first_word ''REM hello'' = ''REM''" "take 3 (strip ''REM hello'') = ''REM''"
  by code_simp+

lemma word_rem_mixed: "upper (first_word ''Rem a'') = ''REM''" "first_word ''Rem a'' \<noteq> ''REM''"
  "snd (parse_key (remainder ''Rem a'')) = [4]" "fst (parse_key (remainder ''Rem a'')) = 0"
  by code_simp+

lemma parse_REM: "parse_key ''REM'' = (0, [])"
  by code_simp

lemma rem_other_case_not_comment:
  assumes u: "upper (first_word l) = ''REM''" and n: "first_word l \<noteq> ''REM''"
  shows "\<not> is_comment l"
proof -
  from u obtain a b c where w: "first_word l = [a, b, c]" and a: "upper_char a = CHR ''R''"
    by (auto simp: upper_def)
  have s: "strip l = a # b # c # dropWhile (\<lambda>c. \<not> isspace c) (strip l)"
    using strip_first_word [of l] unfolding w by simp
  have m: "[a, b, c] \<noteq> ''REM''" using n unfolding w .
  have k: "a \<noteq> CHR ''/''" "a \<noteq> CHR ''#''"
    using upper_char_fixed [OF a] by auto
  show ?thesis
    unfolding is_comment_def startswith_def
    by (subst s, subst s, subst s, subst s) (use m k in \<open>simp add: numeral_3_eq_3\<close>)
qed

lemma rem_other_case_line:
  assumes u: "upper (first_word l) = ''REM''" and n: "first_word l \<noteq> ''REM''"
  shows "compile_line mem nr l (binary, printed) =
     Inr (binary @ (if snd (parse_key (remainder l)) = [] then []
                    else [word_of_int (fst (parse_key (remainder l))), 0]
                         @ map word_of_int (take 6 (snd (parse_key (remainder l))))
                         @ replicate (6 - length (snd (parse_key (remainder l)))) 0
                         @ replicate 16 0), printed)"
proof -
  have w: "upper (first_word l) \<notin> set [''DELAY'', ''STRING'', ''ENTER'', ''TAB'', ''ESC'', ''BACKSPACE'']"
    unfolding u by simp
  have k: "combo_keys ''REM'' (remainder l) = snd (parse_key (remainder l))"
    by (simp add: combo_keys_def parse_REM)
  have m: "combo_mod ''REM'' (remainder l) = fst (parse_key (remainder l))"
    by (simp add: combo_mod_def parse_REM)
  show ?thesis
    unfolding combo_line [OF rem_other_case_not_comment [OF u n] w] u k m press_release_report ..
qed

text \<open>
  Claim C4, as the code has it. The test for a comment is made on the trimmed line before
  the command word is put in upper case, and it distinguishes the case of the letters. A
  line \<open>l\<close> whose trimmed text begins with the upper-case letters \<^verbatim>\<open>REM\<close>, and so every line
  whose first word is \<^verbatim>\<open>REM\<close> in upper case, leaves the stream and the diagnostics as they
  are. A line \<open>l'\<close> whose first word is \<^verbatim>\<open>REM\<close> in any other letter case is no comment: it is
  compiled as a key combination, in which the command word names no key, so that when the
  remainder names a key the line appends one report with the modifier mask and the first
  six key codes of the remainder, then two all-zero reports, and otherwise appends nothing;
  it prints nothing.
\<close>

theorem rem_upper_case_comment:
  "(first_word l = ''REM'' \<longrightarrow> compile_line mem nr l (binary, printed) = Inr (binary, printed))
   \<and> (take 3 (strip l) = ''REM'' \<longrightarrow> compile_line mem nr l (binary, printed) = Inr (binary, printed))
   \<and> (upper (first_word l') = ''REM'' \<and> first_word l' \<noteq> ''REM'' \<and>
      keys = snd (parse_key (remainder l')) \<and> md = fst (parse_key (remainder l')) \<longrightarrow>
        \<not> is_comment l' \<and>
        compile_line mem nr l' (binary, printed) =
          Inr (binary @ (if keys = [] then []
                         else [word_of_int md, 0] @ map word_of_int (take 6 keys)
                              @ replicate (6 - length keys) 0 @ replicate 16 0), printed))"
proof -
  have a: "compile_line mem nr l (binary, printed) = Inr (binary, printed)"
    if "take 3 (strip l) = ''REM''"
    using compile_line_comment [OF rem_comment [OF that]] .
  have b: "compile_line mem nr l (binary, printed) = Inr (binary, printed)"
    if "first_word l = ''REM''"
    using compile_line_comment [OF rem_comment [OF first_word_rem [OF that]]] .
  have c: "\<not> is_comment l' \<and>
        compile_line mem nr l' (binary, printed) =
          Inr (binary @ (if keys = [] then []
                         else [word_of_int md, 0] @ map word_of_int (take 6 keys)
                              @ replicate (6 - length keys) 0 @ replicate 16 0), printed)"
    if u: "upper (first_word l') = ''REM''" and n: "first_word l' \<noteq> ''REM''"
      and k: "keys = snd (parse_key (remainder l'))" and m: "md = fst (parse_key (remainder l'))"
    unfolding k m using rem_other_case_not_comment [OF u n] rem_other_case_line [OF u n]
    by (rule conjI)
  have c': "upper (first_word l') = ''REM'' \<and> first_word l' \<noteq> ''REM'' \<and>
      keys = snd (parse_key (remainder l')) \<and> md = fst (parse_key (remainder l')) \<longrightarrow>
        \<not> is_comment l' \<and>
        compile_line mem nr l' (binary, printed) =
          Inr (binary @ (if keys = [] then []
                         else [word_of_int md, 0] @ map word_of_int (take 6 keys)
                              @ replicate (6 - length keys) 0 @ replicate 16 0), printed)"
  proof
    assume h: "upper (first_word l') = ''REM'' \<and> first_word l' \<noteq> ''REM'' \<and>
      keys = snd (parse_key (remainder l')) \<and> md = fst (parse_key (remainder l'))"
    show "\<not> is_comment l' \<and>
        compile_line mem nr l' (binary, printed) =
          Inr (binary @ (if keys = [] then []
                         else [word_of_int md, 0] @ map word_of_int (take 6 keys)
                              @ replicate (6 - length keys) 0 @ replicate 16 0), printed)"
      using c [OF h [THEN conjunct1] h [THEN conjunct2, THEN conjunct1]
          h [THEN conjunct2, THEN conjunct2, THEN conjunct1]
          h [THEN conjunct2, THEN conjunct2, THEN conjunct2]] .
  qed
  show ?thesis
    by (rule conjI [OF impI [OF b] conjI [OF impI [OF a] c']])
qed

theorem rem_upper_case_comment_witness:
  "first_word ''REM hello'' = ''REM'' \<and> take 3 (strip ''REM hello'') = ''REM'' \<and>
   compile_line 0 1 ''REM hello'' ([], []) = Inr ([], []) \<and>
   upper (first_word ''Rem a'') = ''REM'' \<and> first_word ''Rem a'' \<noteq> ''REM'' \<and>
   snd (parse_key (remainder ''Rem a'')) = [4] \<and> fst (parse_key (remainder ''Rem a'')) = 0 \<and>
   \<not> is_comment ''Rem a'' \<and>
   compile_line 0 1 ''Rem a'' ([], []) = Inr ([0, 0, 4, 0, 0, 0, 0, 0] @ replicate 16 0, [])"
proof -
  note t = rem_upper_case_comment [of "''REM hello''" 0 1 "[]" "[]" "''Rem a''" "[4]" 0]
  have a: "compile_line 0 1 ''REM hello'' ([], []) = Inr ([], [])"
    by (rule t [THEN conjunct1, THEN mp]) (rule word_rem(1))
  have b: "\<not> is_comment ''Rem a'' \<and>
     compile_line 0 1 ''Rem a'' ([], []) =
       Inr ([] @ (if [4 :: int] = [] then []
                  else [word_of_int 0, 0] @ map word_of_int (take 6 [4])
                       @ replicate (6 - length [4 :: int]) 0 @ replicate 16 0), [])"
    by (rule t [THEN conjunct2, THEN conjunct2, THEN mp])
      (intro conjI word_rem_mixed word_rem_mixed(3) [symmetric] word_rem_mixed(4) [symmetric])
  have c: "compile_line 0 1 ''Rem a'' ([], []) = Inr ([0, 0, 4, 0, 0, 0, 0, 0] @ replicate 16 0, [])"
    using b by (simp add: numeral_eq_Suc)
  show ?thesis
    by (intro conjI word_rem word_rem_mixed a c b [THEN conjunct1])
qed

theorem rem_lower_case_counterexample:
  "upper (first_word ''rem a'') = ''REM'' \<and>
   compile_duckyscript 0 ''rem a'' = Inr ([0, 0, 4, 0, 0, 0, 0, 0] @ replicate 16 0, [])"
  by code_simp

subsection \<open>Failing lines\<close>









end
